theory Spec2Isabelle
  imports Main "HOL-Library.Sublist"
begin

section \<open>Python values used by RedditArchiver.py\<close>

text \<open>
  Python strings are modelled as \<open>string\<close>. The source holds one character outside
  ASCII, the en dash of the page header; it is written as the three bytes of its UTF-8
  encoding, which is what \<open>write_file\<close> stores. All patterns the program searches
  for are ASCII, so searching bytes and searching code points agree.
\<close>

datatype error =
    KeyError | UnboundLocalError | SystemExit | NotFound | Forbidden
  | RecursionError | PermissionError | OtherException

type_synonym timestamp = int

definition en_dash :: string where
  "en_dash = [CHR 0xE2, CHR 0x80, CHR 0x93]"

text \<open>\<open>s.replace(old, new)\<close>: every occurrence found in one scan from the left
  is replaced, and the scan goes on after the occurrence. With an empty \<open>old\<close>
  Python puts \<open>new\<close> before every character and at the end.\<close>

fun str_replace :: "string \<Rightarrow> string \<Rightarrow> string \<Rightarrow> string" where
  "str_replace old new [] = (if old = [] then new else [])"
| "str_replace old new (c # cs) =
     (if old = [] then new @ c # str_replace old new cs
      else if prefix old (c # cs) then new @ str_replace old new (drop (length old - 1) cs)
      else c # str_replace old new cs)"

text \<open>\<open>old in s\<close> for strings.\<close>

fun contains :: "string \<Rightarrow> string \<Rightarrow> bool" where
  "contains old [] = (old = [])"
| "contains old (c # cs) = (prefix old (c # cs) \<or> contains old cs)"

text \<open>\<open>str(n)\<close> for integers, in decimal.\<close>

definition digit_char :: "nat \<Rightarrow> char" where
  "digit_char k = ''0123456789'' ! (k mod 10)"

function str_nat :: "nat \<Rightarrow> string" where
  "str_nat n = (if n < 10 then [digit_char n] else str_nat (n div 10) @ [digit_char n])"
  by pat_completeness auto
termination
  by (relation "measure (\<lambda>n. n)") auto

definition str_int :: "int \<Rightarrow> string" where
  "str_int i = (if i < 0 then CHR ''-'' # str_nat (nat (- i)) else str_nat (nat i))"

section \<open>Data model\<close>

text \<open>A comment as the platform client hands it over: its attributes and the list
  of its direct replies. \<open>c_parent_id\<close> is the full name of the declared parent
  (\<open>t3_\<close> and the post's identifier, or \<open>t1_\<close> and a comment's identifier).
  \<open>c_edited\<close> is \<open>False\<close> (here \<open>None\<close>) or the time of the edit.\<close>

record comment_attrs =
  c_id :: string
  c_parent_id :: string
  c_author :: "string option"
  c_body :: "string option"
  c_distinguished :: "string option"
  c_edited :: "timestamp option"
  c_permalink :: string
  c_is_submitter :: bool
  c_score :: int
  c_created_utc :: timestamp

datatype comment = Comment (attrs: comment_attrs) (replies: "comment list")

text \<open>The post. \<open>s_upvote_percent\<close> stands for \<open>int(upvote_ratio*100)\<close>, which
  the source computes in floating point.\<close>

record submission =
  s_subreddit_display_name :: string
  s_title :: string
  s_permalink :: string
  s_num_comments :: int
  s_score :: int
  s_upvote_percent :: int
  s_link_flair_text :: "string option"
  s_stickied :: bool
  s_spoiler :: bool
  s_over_18 :: bool
  s_is_original_content :: bool
  s_locked :: bool
  s_author :: "string option"
  s_created_utc :: timestamp
  s_selftext :: string
  s_comments :: "comment list"

text \<open>The value stored in \<open>comments_forest\<close> for one comment: the dictionary with
  the keys a, b, d, e, l, o, s, t.\<close>

record forest_entry =
  f_a :: string
  f_b :: string
  f_d :: "string option"
  f_e :: "timestamp option"
  f_l :: string
  f_o :: bool
  f_s :: int
  f_t :: timestamp

text \<open>The external collaborators and the configuration: the markdown converter,
  the formatting of a time stamp (\<open>datetime.fromtimestamp(t).strftime(fmt)\<close>) and
  the two configuration values the renderer reads.\<close>

record env =
  markdown :: "string \<Rightarrow> string"
  strftime :: "string \<Rightarrow> timestamp \<Rightarrow> string"
  config_root :: string
  config_dateformat :: string

section \<open>The node tree (anytree)\<close>

text \<open>
  An anytree node has a name, a parent and an ordered list of children; creating
  \<open>Node(name, parent=p)\<close> appends the new node to the children of \<open>p\<close>. The
  nodes of one thread form one tree. A reference to a node object, as the dictionary
  \<open>comments_index\<close> holds it, is the list of child positions leading from the root
  to the node: nodes are only ever appended, so a reference stays valid. The depth of a
  node is the number of its ancestors, the length of its reference.
\<close>

datatype tree = Node (name: string) (children: "tree list")

type_synonym ref = "nat list"

fun subtree :: "tree \<Rightarrow> ref \<Rightarrow> tree option" where
  "subtree t [] = Some t"
| "subtree (Node n cs) (i # p) = (if i < length cs then subtree (cs ! i) p else None)"

fun attach :: "ref \<Rightarrow> tree \<Rightarrow> tree \<Rightarrow> tree" where
  "attach [] new (Node n cs) = Node n (cs @ [new])"
| "attach (i # p) new (Node n cs) =
     Node n (if i < length cs then cs[i := attach p new (cs ! i)] else cs)"

definition arity :: "tree \<Rightarrow> ref \<Rightarrow> nat" where
  "arity t p = (case subtree t p of Some n \<Rightarrow> length (children n) | None \<Rightarrow> 0)"

text \<open>\<open>Node(nm, parent=p)\<close>: the tree after the creation and the reference of the
  new node.\<close>

definition new_node :: "string \<Rightarrow> ref \<Rightarrow> tree \<Rightarrow> tree \<times> ref" where
  "new_node nm p t = (attach p (Node nm []) t, p @ [arity t p])"

text \<open>\<open>PreOrderIter\<close>: a node, then the subtrees of its children in order. Each
  visited node is given with its name and its depth.\<close>

fun pre_order :: "nat \<Rightarrow> tree \<Rightarrow> (string \<times> nat) list" where
  "pre_order dpt (Node n cs) = (n, dpt) # concat (map (pre_order (Suc dpt)) cs)"

definition PreOrderIter :: "tree \<Rightarrow> ref \<Rightarrow> (string \<times> nat) list" where
  "PreOrderIter t p = (case subtree t p of Some n \<Rightarrow> pre_order (length p) n | None \<Rightarrow> [])"

fun size_tree :: "tree \<Rightarrow> nat" where
  "size_tree (Node n cs) = Suc (sum_list (map size_tree cs))"

type_synonym comments_index = "tree \<times> (string \<rightharpoonup> ref)"
type_synonym comments_forest = "string \<rightharpoonup> forest_entry"

section \<open>comment_parser\<close>

definition comment_parser :: "env \<Rightarrow> string \<Rightarrow> string" where
  "comment_parser ev initial_text =
     (let text = str_replace ''<'' ''&lt;'' initial_text;
          text = str_replace ''>'' ''&gt;'' text;
          text = markdown ev text;
          text = str_replace ''\<newline>\<newline>'' ''</p><p>'' text;
          text = str_replace ''\<newline>'' ''<br>'' text
      in if drop (length text - 4) text = ''<br>'' then take (length text - 4) text else text)"

section \<open>download_submission\<close>

text \<open>The record built for one comment (line 146 of the source).\<close>

definition forest_entry_of :: "comment \<Rightarrow> forest_entry" where
  "forest_entry_of c =
     \<lparr> f_a = (case c_author (attrs c) of None \<Rightarrow> ''(deleted)'' | Some nm \<Rightarrow> nm),
       f_b = (case c_body (attrs c) of None \<Rightarrow> ''(deleted)'' | Some bd \<Rightarrow> bd),
       f_d = c_distinguished (attrs c),
       f_e = c_edited (attrs c),
       f_l = c_permalink (attrs c),
       f_o = c_is_submitter (attrs c),
       f_s = c_score (attrs c),
       f_t = c_created_utc (attrs c) \<rparr>"

definition key_of :: "comment \<Rightarrow> string" where
  "key_of c = ''t1_'' @ c_id (attrs c)"

lemma sum_size_le_size_list:
  "sum_list (map size (cs :: comment list)) \<le> size_list size cs"
  by (induction cs) auto

text \<open>The loop over \<open>comment_queue\<close>: the first comment is taken off the queue, its
  node is created under \<open>comments_index[comment.parent_id]\<close> (a missing key raises
  \<open>KeyError\<close>), its record is stored, and its replies go to the end of the queue.\<close>

function fill :: "comment list \<Rightarrow> comments_index \<times> comments_forest
    \<Rightarrow> error + comments_index \<times> comments_forest" where
  "fill [] st = Inr st"
| "fill (c # queue) ((t, idx), forest) =
     (case idx (c_parent_id (attrs c)) of
        None \<Rightarrow> Inl KeyError
      | Some p \<Rightarrow>
          (let (t', r) = new_node (key_of c) p t
           in fill (queue @ replies c)
                ((t', idx(key_of c \<mapsto> r)), forest(key_of c \<mapsto> forest_entry_of c))))"
  by pat_completeness auto
termination
proof (relation "measure (\<lambda>(q, st). sum_list (map size q))")
  show "wf (measure (\<lambda>(q, st). sum_list (map size q)))" by simp
next
  fix c :: comment and queue t idx forest p x xa y
  have "sum_list (map size (replies c)) < size c"
    using sum_size_le_size_list [of "replies c"] by (cases c) simp
  then show "((queue @ replies c,
       (xa, idx(key_of c \<mapsto> y)), forest(key_of c \<mapsto> forest_entry_of c)),
      c # queue, (t, idx), forest) \<in> measure (\<lambda>(q, st). sum_list (map size q))"
    by simp
qed

definition download_submission ::
    "submission \<Rightarrow> string \<Rightarrow> error + submission \<times> comments_index \<times> comments_forest" where
  "download_submission sub submission_id =
     (case fill (s_comments sub)
             ((Node (''t3_'' @ submission_id) [],
               Map.empty(''t3_'' @ submission_id \<mapsto> [])), Map.empty) of
        Inl err \<Rightarrow> Inl err
      | Inr (comments_index, comments_forest) \<Rightarrow> Inr (sub, comments_index, comments_forest))"

section \<open>generate_html\<close>

definition NAME :: string where
  "NAME = ''RedditPostDownloader''"

definition VERSION :: string where
  "VERSION = ''2.1.0''"

definition yes_no :: "bool \<Rightarrow> string" where
  "yes_no flag = (if flag = False then ''No'' else ''Yes'')"

definition author_name :: "string option \<Rightarrow> string" where
  "author_name au = (case au of None \<Rightarrow> ''(deleted)'' | Some nm \<Rightarrow> nm)"

definition html_head :: "submission \<Rightarrow> string" where
  "html_head sub =
     ''<!doctype html><html><head><meta charset=\"utf-8\"/><title>''
     @ s_subreddit_display_name sub @ '' '' @ en_dash @ '' '' @ s_title sub
     @ ''</title></head><body>''"

definition html_submission :: "env \<Rightarrow> submission \<Rightarrow> string \<Rightarrow> string option \<Rightarrow> string" where
  "html_submission ev sub now_str sort_by =
     ''<h1><a href=\"'' @ config_root ev @ ''/r/'' @ s_subreddit_display_name sub @ ''/\">/r/''
     @ s_subreddit_display_name sub @ ''</a> '' @ en_dash @ '' <a href=\"'' @ config_root ev
     @ s_permalink sub @ ''\">'' @ s_title sub @ ''</a></h1><h2>Snapshot taken on '' @ now_str
     @ ''<br/>Posts: '' @ str_int (s_num_comments sub) @ '' '' @ en_dash @ '' Score: ''
     @ str_int (s_score sub) @ '' ('' @ str_int (s_upvote_percent sub) @ ''% upvoted) ''
     @ en_dash @ '' Flair: ''
     @ (case s_link_flair_text sub of None \<Rightarrow> ''None'' | Some fl \<Rightarrow> fl)
     @ '' '' @ en_dash @ '' Sorted by: '' @ (case sort_by of None \<Rightarrow> ''None'' | Some so \<Rightarrow> so)
     @ ''<br/>Sticky: '' @ yes_no (s_stickied sub) @ '' '' @ en_dash @ '' Spoiler: ''
     @ yes_no (s_spoiler sub) @ '' '' @ en_dash @ '' NSFW: '' @ yes_no (s_over_18 sub)
     @ '' '' @ en_dash @ '' OC: '' @ yes_no (s_is_original_content sub) @ '' '' @ en_dash
     @ '' Locked: '' @ yes_no (s_locked sub) @ ''</h2><p><em>Snapshot taken from '' @ NAME
     @ '' v'' @ VERSION @ ''. All times are UTC.</em></p>''"

definition html_firstpost :: "env \<Rightarrow> submission \<Rightarrow> string \<Rightarrow> string" where
  "html_firstpost ev sub submission_id =
     ''<h3>Original post</h3><div class=\"b p f l1\" id=\"t3_'' @ submission_id
     @ ''\"><header><a href=\"'' @ config_root ev @ ''/u/'' @ author_name (s_author sub)
     @ ''\">'' @ author_name (s_author sub) @ ''</a>, on ''
     @ strftime ev (config_dateformat ev) (s_created_utc sub) @ ''</header>''
     @ comment_parser ev (s_selftext sub) @ ''</div><h3>Comments</h3>''"

text \<open>The number of passes of the closing loop (lines 183 to 185).\<close>

definition close_count :: "nat \<Rightarrow> nat \<Rightarrow> nat" where
  "close_count previous_comment_level current_comment_level =
     (if current_comment_level \<le> previous_comment_level
      then previous_comment_level - current_comment_level + 1 else 0)"

text \<open>The colour class of a comment (lines 194 to 203).\<close>

definition style_class :: "string option \<Rightarrow> bool \<Rightarrow> nat \<Rightarrow> string" where
  "style_class dist submitter current_comment_level =
     (if dist = Some ''admin'' then ''a ''
      else if dist = Some ''moderator'' then ''m ''
      else if submitter then ''p ''
      else if current_comment_level mod 2 = 0 then ''e ''
      else ''o '')"

definition classes_of :: "forest_entry \<Rightarrow> nat \<Rightarrow> string" where
  "classes_of e current_comment_level =
     (if current_comment_level = 1 then ''f '' else [])
     @ style_class (f_d e) (f_o e) current_comment_level
     @ ''l'' @ [last (str_nat current_comment_level)]"

definition open_div :: "forest_entry \<Rightarrow> string \<Rightarrow> nat \<Rightarrow> string" where
  "open_div e current_comment_id current_comment_level =
     ''<div class=\"'' @ classes_of e current_comment_level @ ''\" id=\"''
     @ current_comment_id @ ''\">''"

definition comment_block :: "env \<Rightarrow> forest_entry \<Rightarrow> string" where
  "comment_block ev e =
     ''<header>'' @ f_a e @ '', on '' @ strftime ev (config_dateformat ev) (f_t e)
     @ '' ('' @ str_int (f_s e) @ (if f_e e = None then [] else '', edited'')
     @ '')</header>'' @ comment_parser ev (f_b e)"

text \<open>
  What one pass of the loop body appends to \<open>html_comments\<close> for a comment node,
  one list element for every \<open>+=\<close> of the source, in order: the closing markers,
  the opening of the comment's own boundary, and its header and body. The text of
  \<open>html_comments\<close> is the concatenation of the elements.
\<close>

definition render_node :: "env \<Rightarrow> forest_entry \<Rightarrow> string \<Rightarrow> nat \<Rightarrow> nat \<Rightarrow> string list" where
  "render_node ev e current_comment_id current_comment_level previous_comment_level =
     replicate (close_count previous_comment_level current_comment_level) ''</div>''
     @ [open_div e current_comment_id current_comment_level, comment_block ev e]"

text \<open>The loop over the nodes in pre-order. The state is \<open>html_comments\<close>,
  \<open>previous_comment_level\<close> and \<open>comment_counter\<close>. A node whose name starts with
  \<open>t3\<close> is skipped; a node with no record in \<open>comments_forest\<close> raises
  \<open>KeyError\<close>.\<close>

fun render_loop :: "env \<Rightarrow> comments_forest \<Rightarrow> (string \<times> nat) list
    \<Rightarrow> string list \<times> nat \<times> nat \<Rightarrow> error + string list \<times> nat \<times> nat" where
  "render_loop ev forest [] st = Inr st"
| "render_loop ev forest ((current_comment_id, current_comment_level) # nodes)
       (html_comments, previous_comment_level, comment_counter) =
     (if take 2 current_comment_id = ''t3''
      then render_loop ev forest nodes (html_comments, previous_comment_level, comment_counter)
      else case forest current_comment_id of
             None \<Rightarrow> Inl KeyError
           | Some e \<Rightarrow>
               render_loop ev forest nodes
                 (html_comments
                    @ render_node ev e current_comment_id current_comment_level
                        previous_comment_level,
                  current_comment_level, comment_counter + 1))"

definition html_comments_of :: "env \<Rightarrow> string \<Rightarrow> comments_index \<Rightarrow> comments_forest
    \<Rightarrow> error + string list" where
  "html_comments_of ev submission_id ci forest =
     (case snd ci (''t3_'' @ submission_id) of
        None \<Rightarrow> Inl KeyError
      | Some root \<Rightarrow>
          (case render_loop ev forest (PreOrderIter (fst ci) root) ([], 1, 1) of
             Inl err \<Rightarrow> Inl err
           | Inr (html_comments, previous_comment_level, comment_counter) \<Rightarrow> Inr html_comments))"

text \<open>The merged text before the paragraph markers are removed (line 219).\<close>

definition html_merged :: "env \<Rightarrow> submission \<Rightarrow> string \<Rightarrow> string \<Rightarrow> string option
    \<Rightarrow> string list \<Rightarrow> string" where
  "html_merged ev sub submission_id now_str sort_by html_comments =
     html_head sub @ html_submission ev sub now_str sort_by
     @ html_firstpost ev sub submission_id @ concat html_comments"

definition generate_html :: "env \<Rightarrow> submission \<Rightarrow> string \<Rightarrow> string \<Rightarrow> string option
    \<Rightarrow> comments_index \<Rightarrow> comments_forest \<Rightarrow> error + string" where
  "generate_html ev sub submission_id now_str sort_by ci forest =
     (case html_comments_of ev submission_id ci forest of
        Inl err \<Rightarrow> Inl err
      | Inr html_comments \<Rightarrow>
          Inr (str_replace ''</p>'' []
                 (str_replace ''<p>'' []
                    (html_merged ev sub submission_id now_str sort_by html_comments))))"

text \<open>The order in which the loop of \<open>download_submission\<close> takes the comments
  off the queue: the queue's first comment, then the rest of the queue followed by the
  replies of that comment.\<close>

function bfs :: "comment list \<Rightarrow> comment list" where
  "bfs [] = []"
| "bfs (c # queue) = c # bfs (queue @ replies c)"
  by pat_completeness auto
termination
proof (relation "measure (\<lambda>q. sum_list (map size q))")
  show "wf (measure (\<lambda>q. sum_list (map size q)))" by simp
next
  fix c :: comment and queue :: "comment list"
  have "sum_list (map size (replies c)) < size c"
    using sum_size_le_size_list [of "replies c"] by (cases c) simp
  then show "(queue @ replies c, c # queue) \<in> measure (\<lambda>q. sum_list (map size q))"
    by simp
qed

text \<open>Every comment of the list declares a parent whose key is known when the
  comment is reached: the keys known at the start, or the key of a comment earlier in
  the list.\<close>

fun resolvable :: "string set \<Rightarrow> comment list \<Rightarrow> bool" where
  "resolvable known [] = True"
| "resolvable known (c # cs) =
     (c_parent_id (attrs c) \<in> known \<and> resolvable (insert (key_of c) known) cs)"



text \<open>In a text, no \<open><\<close> stands between a \<open><\<close> and the next \<open>>\<close>: every
  tag is closed before the next one opens. The flag tells whether the text starts
  inside a tag.\<close>

fun tag_wf :: "bool \<Rightarrow> string \<Rightarrow> bool" where
  "tag_wf inside [] = True"
| "tag_wf inside (c # cs) =
     (if c = CHR ''<'' then \<not> inside \<and> tag_wf True cs
      else if c = CHR ''>'' then tag_wf False cs
      else tag_wf inside cs)"

section \<open>extract_id\<close>

text \<open>
  The regular expressions of \<open>extract_id\<close> use literals, the optional \<open>?\<close>, the
  alternative \<open>|\<close>, \<open>+\<close> on a character class, one capturing group and the end
  anchor \<open>$\<close>. A regular expression is run on a state, the rest of the input and the
  groups captured so far, and yields the states after every way of matching, in the
  order in which a backtracking matcher tries them: \<open>?\<close> and \<open>+\<close> are greedy, the
  alternative tries its left side first. In Python \<open>$\<close> matches at the end of the
  text and before a line break that ends the text.
\<close>

datatype regex =
    Lit string
  | Plus_class "char list"
  | Opt regex
  | Alt regex regex
  | Seq regex regex
  | Group regex
  | End_anchor

type_synonym match_state = "string \<times> string list"

fun run :: "regex \<Rightarrow> match_state \<Rightarrow> match_state list" where
  "run (Lit w) (s, g) = (if prefix w s then [(drop (length w) s, g)] else [])"
| "run (Plus_class cls) (s, g) =
     map (\<lambda>n. (drop n s, g)) (rev [1 ..< Suc (length (takeWhile (\<lambda>c. c \<in> set cls) s))])"
| "run (Opt r) st = run r st @ [st]"
| "run (Alt r1 r2) st = run r1 st @ run r2 st"
| "run (Seq r1 r2) st = concat (map (run r2) (run r1 st))"
| "run (Group r) (s, g) =
     map (\<lambda>(s', g'). (s', g' @ [take (length s - length s') s])) (run r (s, g))"
| "run End_anchor (s, g) = (if s = [] \<or> s = ''\<newline>'' then [(s, g)] else [])"

fun seqs :: "regex list \<Rightarrow> regex" where
  "seqs [] = Lit []"
| "seqs [r] = r"
| "seqs (r # rs) = Seq r (seqs rs)"

text \<open>\<open>re.search\<close> for a pattern that starts with \<open>^\<close>: a match can only start at
  the start of the text. The result is the list of the groups of the first match.\<close>

definition re_search :: "regex \<Rightarrow> string \<Rightarrow> string list option" where
  "re_search r url = (case run r (url, []) of [] \<Rightarrow> None | (rest, g) # other \<Rightarrow> Some g)"

definition id_class :: "char list" where
  "id_class = ''abcdefghijklmnopqrstuvwxyz0123456789''"

definition community_class :: "char list" where
  "community_class = ''abcdefghijklmnopqrstuvwxyzABCDEFGHIJKLMNOPQRSTUVWXYZ0123456789-_''"

definition host_regex :: "regex list" where
  "host_regex =
     [Lit ''http'', Opt (Lit ''s''), Lit ''://'',
      Opt (Alt (Lit ''old'') (Alt (Lit ''new'') (Lit ''www''))), Lit ''.reddit.com/'']"

definition regexes :: "regex list" where
  "regexes =
     [seqs [Group (Plus_class id_class), Opt (Lit ''/''), End_anchor],
      seqs (host_regex @ [Group (Plus_class id_class), Opt (Lit ''/''), End_anchor]),
      seqs (host_regex @ [Lit ''r/'', Plus_class community_class, Lit ''/comments/'',
                           Group (Plus_class id_class), Opt (Lit ''/'')])]"

fun first_match :: "regex list \<Rightarrow> string \<Rightarrow> string option" where
  "first_match [] url = None"
| "first_match (regex # rest) url =
     (case re_search regex url of
        Some g \<Rightarrow> (case g of [] \<Rightarrow> None | g1 # gs \<Rightarrow> Some g1)
      | None \<Rightarrow> first_match rest url)"

definition extract_id :: "string \<Rightarrow> string option" where
  "extract_id url = first_match regexes url"

text \<open>The three shapes of a reference, as sets of texts with the identifier each
  holds. An identifier is a non-empty run of lower-case letters and digits. The end of
  a bare identifier and of a shortened permalink may be followed by one line break; in
  a full permalink the identifier ends where the first other character stands.\<close>

definition id_token :: "string \<Rightarrow> bool" where
  "id_token i = (i \<noteq> [] \<and> set i \<subseteq> set id_class)"

definition host_prefix :: "string \<Rightarrow> bool" where
  "host_prefix h =
     (\<exists>scheme sub. (scheme = ''http'' \<or> scheme = ''https'')
        \<and> (sub = [] \<or> sub = ''old'' \<or> sub = ''new'' \<or> sub = ''www'')
        \<and> h = scheme @ ''://'' @ sub @ ''.reddit.com/'')"

definition line_end :: "string \<Rightarrow> bool" where
  "line_end rest = (rest = [] \<or> rest = ''/'' \<or> rest = ''\<newline>'' \<or> rest = ''/\<newline>'')"

definition bare_shape :: "string \<Rightarrow> string \<Rightarrow> bool" where
  "bare_shape url i = (id_token i \<and> (\<exists>rest. line_end rest \<and> url = i @ rest))"

definition short_shape :: "string \<Rightarrow> string \<Rightarrow> bool" where
  "short_shape url i =
     (id_token i \<and> (\<exists>h rest. host_prefix h \<and> line_end rest \<and> url = h @ i @ rest))"

definition full_shape :: "string \<Rightarrow> string \<Rightarrow> bool" where
  "full_shape url i =
     (id_token i \<and>
      (\<exists>h community rest. host_prefix h \<and> community \<noteq> []
         \<and> set community \<subseteq> set community_class
         \<and> (rest = [] \<or> hd rest \<notin> set id_class)
         \<and> url = h @ ''r/'' @ community @ ''/comments/'' @ i @ rest))"

section \<open>scrape_url and main\<close>

text \<open>
  What lies outside the program for one run: the platform (\<open>fetch\<close> stands for the
  network accesses of \<open>get_submission\<close> and \<open>replace_more\<close>, which raise or give the
  post with all its comments), the file system and the text Python prints for an
  exception. A printed message is the text, the colour and the stderr flag given to
  \<open>myprint\<close>.
\<close>

record world =
  fetch :: "string \<Rightarrow> error + submission"
  makedirs :: "error option"
  write_file :: "string \<Rightarrow> submission \<Rightarrow> error + string"
  str_error :: "error \<Rightarrow> string"

type_synonym message = "string \<times> nat \<times> bool"

text \<open>The \<open>try\<close> statement of \<open>scrape_url\<close> (lines 284 to 296): the messages
  printed, and either an exception that no clause catches or the local variables
  \<open>submission\<close>, \<open>comments_index\<close> and \<open>comments_forest\<close>, which are bound only
  when the body of the \<open>try\<close> ran to its end.\<close>

definition scrape_try :: "world \<Rightarrow> string
    \<Rightarrow> message list \<times> (error + (submission \<times> comments_index \<times> comments_forest) option)" where
  "scrape_try w submission_id =
     (case fetch w submission_id of
        Inl err \<Rightarrow>
          (if err = NotFound then
             ([(''[x] The submission '' @ submission_id @ '' was not found.'', 9, True)],
              Inr None)
           else if err = Forbidden then
             ([(''[x] Not allowed to access the submission '' @ submission_id
                @ ''. That usually means the submission is on a private subreddit you do not have access to.'',
                9, True)], Inr None)
           else ([], Inl err))
      | Inr sub \<Rightarrow>
          (let found = (''[+] Submission '' @ submission_id @ '' found (\"'' @ s_title sub
                 @ ''\" on r/'' @ s_subreddit_display_name sub @ '', ''
                 @ str_int (s_num_comments sub) @ '' replies), beginning download'', 8, False)
           in case download_submission sub submission_id of
                Inl err \<Rightarrow> ([found], Inl err)
              | Inr r \<Rightarrow> ([found, (''[+] Submission downloaded.'', 8, False)], Inr (Some r))))"

definition scrape_url :: "env \<Rightarrow> world \<Rightarrow> string \<Rightarrow> string
    \<Rightarrow> message list \<times> (error + string \<times> submission)" where
  "scrape_url ev w now_str url =
     (case extract_id url of
        None \<Rightarrow>
          ([(''[x] The URL or ID \"'' @ url @ ''\" looks incorrect. Please check it.'', 9, True)],
           Inl SystemExit)
      | Some submission_id \<Rightarrow>
          (case scrape_try w submission_id of
             (out, Inl err) \<Rightarrow> (out, Inl err)
           | (out, Inr None) \<Rightarrow> (out, Inl UnboundLocalError)
           | (out, Inr (Some (sub, ci, forest))) \<Rightarrow>
               (case generate_html ev sub submission_id now_str None ci forest of
                  Inl err \<Rightarrow>
                    (if err = RecursionError then
                       (out @
                        [(''[x] The HTML structure could not be generated because the structure of the replies is going too deep for the program to handle.'',
                          9, True),
                         (''[x] If you really want to save that thread, pass the --disable-recursion-limit option. Please note however that this might lead to crashing the program.'',
                          9, True)],
                        Inl SystemExit)
                     else (out, Inl err))
                | Inr html \<Rightarrow> (out, Inr (html, sub)))))"

text \<open>\<open>main\<close>: \<open>except Exception\<close> catches every exception of the model but
  \<open>SystemExit\<close>, prints it and raises it again.\<close>

definition uncaught :: "world \<Rightarrow> error \<Rightarrow> message" where
  "uncaught w err = (''[x] Uncaught problem: '' @ str_error w err, 9, True)"

definition main_body :: "env \<Rightarrow> world \<Rightarrow> string \<Rightarrow> string \<Rightarrow> message list \<times> (error + unit)" where
  "main_body ev w now_str url =
     (case scrape_url ev w now_str url of
        (out, Inl err) \<Rightarrow> (out, Inl err)
      | (out, Inr (html, sub)) \<Rightarrow>
          (let out = out @ [(''[+] Submission structured.'', 8, False)]
           in case makedirs w of
                Some err \<Rightarrow> (out, Inl err)
              | None \<Rightarrow>
                  (case write_file w html sub of
                     Inl err \<Rightarrow>
                       (if err = PermissionError then
                          (out @ [(''[x] Could not write file because of bad permissions.'', 9, True)],
                           Inl SystemExit)
                        else if err = SystemExit then (out, Inl SystemExit)
                        else
                          (out @ [(''[x] Uncaught problem when writing the file: ''
                                   @ str_error w err, 9, True)],
                           Inl SystemExit))
                   | Inr filename \<Rightarrow>
                       (out @ [(''[=] Submission saved! Filename: '' @ filename, 10, False)],
                        Inr ()))))"

definition main :: "env \<Rightarrow> world \<Rightarrow> string \<Rightarrow> string \<Rightarrow> message list \<times> (error + unit)" where
  "main ev w now_str url =
     (case main_body ev w now_str url of
        (out, Inl err) \<Rightarrow>
          (if err = SystemExit then (out, Inl SystemExit)
           else (out @ [uncaught w err], Inl err))
      | (out, Inr u) \<Rightarrow> (out, Inr u))"


section \<open>Example values\<close>

text \<open>A converter that wraps a one-paragraph text as markdown2 does, a fixed date,
  and small threads.\<close>

definition example_env :: env where
  "example_env =
     \<lparr> markdown = (\<lambda>t. ''<p>'' @ t @ ''</p>\<newline>''),
       strftime = (\<lambda>fmt t. ''2020-01-01 00:00:00''),
       config_root = ''https://www.reddit.com'',
       config_dateformat = ''%Y-%m-%d %H:%M:%S'' \<rparr>"

definition example_comment :: "string \<Rightarrow> string \<Rightarrow> string option \<Rightarrow> comment list \<Rightarrow> comment" where
  "example_comment i p au rs =
     Comment \<lparr> c_id = i, c_parent_id = p, c_author = au, c_body = map_option (\<lambda>a. ''hi'') au,
               c_distinguished = None, c_edited = None, c_permalink = ''/r/test/comments/abc/hello/'' @ i @ ''/'',
               c_is_submitter = False, c_score = 5, c_created_utc = 0 \<rparr> rs"

definition example_submission :: "string \<Rightarrow> comment list \<Rightarrow> submission" where
  "example_submission title cs =
     \<lparr> s_subreddit_display_name = ''test'', s_title = title,
       s_permalink = ''/r/test/comments/abc/hello/'', s_num_comments = int (length cs),
       s_score = 10, s_upvote_percent = 97, s_link_flair_text = None, s_stickied = False,
       s_spoiler = False, s_over_18 = False, s_is_original_content = False, s_locked = False,
       s_author = Some ''alice'', s_created_utc = 0, s_selftext = ''body'', s_comments = cs \<rparr>"

definition flat_thread :: "comment list" where
  "flat_thread =
     [example_comment ''c1'' ''t3_abc'' (Some ''bob'') [],
      example_comment ''c2'' ''t3_abc'' (Some ''carol'') [],
      example_comment ''c3'' ''t3_abc'' (Some ''dave'') []]"

definition nested_thread :: "comment list" where
  "nested_thread =
     [example_comment ''c1'' ''t3_abc'' (Some ''bob'')
        [example_comment ''c2'' ''t1_c1'' None [],
         example_comment ''c3'' ''t1_c1'' (Some ''dave'') []],
      example_comment ''c4'' ''t3_abc'' (Some ''erin'') []]"

definition misordered_thread :: "comment list" where
  "misordered_thread =
     [example_comment ''c1'' ''t1_c2'' (Some ''bob'') [],
      example_comment ''c2'' ''t3_abc'' (Some ''carol'') []]"

definition example_world :: "error + submission \<Rightarrow> world" where
  "example_world r =
     \<lparr> fetch = (\<lambda>i. r), makedirs = None, write_file = (\<lambda>html sub. Inr ''test-hello.html''),
       str_error = (\<lambda>err. ''error'') \<rparr>"

definition nested_tree :: tree where
  "nested_tree =
     Node ''t3_abc'' [Node ''t1_c1'' [Node ''t1_c2'' [], Node ''t1_c3'' []], Node ''t1_c4'' []]"

definition nested_refs :: "string \<rightharpoonup> ref" where
  "nested_refs =
     [''t3_abc'' \<mapsto> [], ''t1_c1'' \<mapsto> [0], ''t1_c4'' \<mapsto> [1], ''t1_c2'' \<mapsto> [0, 0], ''t1_c3'' \<mapsto> [0, 1]]"

definition nested_forest :: comments_forest where
  "nested_forest =
     [''t1_c1'' \<mapsto> forest_entry_of (example_comment ''c1'' ''t3_abc'' (Some ''bob'') []),
      ''t1_c4'' \<mapsto> forest_entry_of (example_comment ''c4'' ''t3_abc'' (Some ''erin'') []),
      ''t1_c2'' \<mapsto> forest_entry_of (example_comment ''c2'' ''t1_c1'' None []),
      ''t1_c3'' \<mapsto> forest_entry_of (example_comment ''c3'' ''t1_c1'' (Some ''dave'') [])]"

text \<open>One pass of the loop body of \<open>download_submission\<close> for a comment whose
  declared parent has a node.\<close>

definition attach_comment ::
    "comments_index \<times> comments_forest \<Rightarrow> comment \<Rightarrow> comments_index \<times> comments_forest" where
  "attach_comment st c =
     (case st of ((t, idx), forest) \<Rightarrow>
        (case new_node (key_of c) (the (idx (c_parent_id (attrs c)))) t of
           (t', r) \<Rightarrow> ((t', idx(key_of c \<mapsto> r)), forest(key_of c \<mapsto> forest_entry_of c))))"

text \<open>The dictionary \<open>comments_index\<close> and the tree agree: every key refers to a
  node of that name, and every node of the tree is the one its name refers to.\<close>

definition index_ok :: "tree \<Rightarrow> (string \<rightharpoonup> ref) \<Rightarrow> bool" where
  "index_ok t idx =
     ((\<forall>k p. idx k = Some p \<longrightarrow> (\<exists>n. subtree t p = Some n \<and> name n = k))
      \<and> (\<forall>p n. subtree t p = Some n \<longrightarrow> idx (name n) = Some p))"

text \<open>What holds of the tree, the index and the forest after the comments
  \<open>done\<close> have been taken off the queue, in this order.\<close>

definition tree_inv ::
    "string \<Rightarrow> comments_index \<times> comments_forest \<Rightarrow> comment list \<Rightarrow> bool" where
  "tree_inv root st done =
     (case st of ((t, idx), forest) \<Rightarrow>
        index_ok t idx
        \<and> dom idx = insert root (key_of ` set done)
        \<and> idx root = Some [] \<and> name t = root
        \<and> size_tree t = Suc (length done)
        \<and> (\<forall>p n. subtree t p = Some n \<longrightarrow>
              map name (children n)
                = map key_of (filter (\<lambda>c. c_parent_id (attrs c) = name n) done))
        \<and> (\<forall>c \<in> set done. \<exists>q j. idx (c_parent_id (attrs c)) = Some q
              \<and> idx (key_of c) = Some (q @ [j]))
        \<and> (\<forall>c \<in> set done. forest (key_of c) = Some (forest_entry_of c)))"

section \<open>The renderer: closing markers\<close>

lemma open_div_not_closing: "open_div e nm lvl \<noteq> ''</div>''"
  by (simp add: open_div_def)

lemma comment_block_not_closing: "comment_block ev e \<noteq> ''</div>''"
  by (simp add: comment_block_def)

lemma pre_order_first: "\<exists>rest. pre_order d t = (name t, d) # rest"
  by (cases t) simp

lemma first_child_depth:
  "concat (map (pre_order (Suc d)) cs) = x # rest \<Longrightarrow> snd x = Suc d"
proof (cases cs)
  case Nil
  assume "concat (map (pre_order (Suc d)) cs) = x # rest"
  with Nil show ?thesis by simp
next
  case (Cons c cs')
  assume a: "concat (map (pre_order (Suc d)) cs) = x # rest"
  obtain r where "pre_order (Suc d) c = (name c, Suc d) # r"
    using pre_order_first by blast
  with a Cons show ?thesis by auto
qed

lemma PreOrderIter_root:
  "\<exists>rest. PreOrderIter t [] = (name t, 0) # rest \<and> (rest \<noteq> [] \<longrightarrow> snd (hd rest) = 1)"
proof (cases t)
  case (Node n cs)
  have "concat (map (pre_order (Suc 0)) cs) \<noteq> [] \<longrightarrow>
        snd (hd (concat (map (pre_order (Suc 0)) cs))) = 1"
    using first_child_depth [of 0 cs] by (cases "concat (map (pre_order (Suc 0)) cs)") auto
  with Node show ?thesis by (simp add: PreOrderIter_def)
qed









text \<open>
  Claim C6. The colour class of a comment depends only on its distinguished status,
  its submitter flag and the parity of its depth: two comments that agree on the three
  get the same class. The class is chosen in the order admin, moderator, submitter,
  even depth, odd depth.
\<close>

theorem style_class_deterministic:
  "(d1 = d2 \<and> o1 = o2 \<and> even l1 = even l2 \<longrightarrow> style_class d1 o1 l1 = style_class d2 o2 l2)
   \<and> (d1 = Some ''admin'' \<longrightarrow> style_class d1 o1 l1 = ''a '')
   \<and> (d1 = Some ''moderator'' \<longrightarrow> style_class d1 o1 l1 = ''m '')
   \<and> (d1 \<noteq> Some ''admin'' \<and> d1 \<noteq> Some ''moderator'' \<and> o1 \<longrightarrow> style_class d1 o1 l1 = ''p '')
   \<and> (d1 \<noteq> Some ''admin'' \<and> d1 \<noteq> Some ''moderator'' \<and> \<not> o1 \<and> even l1
        \<longrightarrow> style_class d1 o1 l1 = ''e '')
   \<and> (d1 \<noteq> Some ''admin'' \<and> d1 \<noteq> Some ''moderator'' \<and> \<not> o1 \<and> odd l1
        \<longrightarrow> style_class d1 o1 l1 = ''o '')"
  by (auto simp: style_class_def even_iff_mod_2_eq_zero)

theorem style_class_deterministic_witness:
  "style_class None False 2 = style_class None False 4
   \<and> style_class None False 2 = ''e ''
   \<and> style_class (Some ''moderator'') True 3 = ''m ''"
  using style_class_deterministic [of None None False False 2 4]
    style_class_deterministic [of "Some ''moderator''" "Some ''moderator''" True True 3 3]
  by (simp add: style_class_def)

text \<open>
  Claim C1. The loop starts with the previous level 1, which is the depth of the first
  node visited after the root, whatever the tree. For a node that is not skipped, the
  loop body first appends \<open>previous - current + 1\<close> closing markers when the node's
  depth is at most the previous level, and none when it is greater; then it appends the
  opening of the node's boundary and its block, neither of which is a closing marker;
  the previous level becomes the node's depth.
\<close>

theorem closing_markers_per_node:
  "(take 2 nm \<noteq> ''t3'' \<and> forest nm = Some e \<longrightarrow>
      render_loop ev forest ((nm, cur) # nodes) (html, prev, k)
        = render_loop ev forest nodes
            (html @ replicate (if cur \<le> prev then prev - cur + 1 else 0) ''</div>''
               @ [open_div e nm cur, comment_block ev e], cur, k + 1))
   \<and> open_div e nm cur \<noteq> ''</div>'' \<and> comment_block ev e \<noteq> ''</div>''
   \<and> (snd ci (''t3_'' @ sid) = Some r \<longrightarrow>
        html_comments_of ev sid ci forest
          = map_sum id fst (render_loop ev forest (PreOrderIter (fst ci) r) ([], 1, 1)))
   \<and> (\<exists>rest. PreOrderIter t [] = (name t, 0) # rest \<and> (rest \<noteq> [] \<longrightarrow> snd (hd rest) = 1))"
proof -
  have a: "take 2 nm \<noteq> ''t3'' \<and> forest nm = Some e \<longrightarrow>
      render_loop ev forest ((nm, cur) # nodes) (html, prev, k)
        = render_loop ev forest nodes
            (html @ replicate (if cur \<le> prev then prev - cur + 1 else 0) ''</div>''
               @ [open_div e nm cur, comment_block ev e], cur, k + 1)"
    by (simp add: render_node_def close_count_def)
  have b: "snd ci (''t3_'' @ sid) = Some r \<longrightarrow>
        html_comments_of ev sid ci forest
          = map_sum id fst (render_loop ev forest (PreOrderIter (fst ci) r) ([], 1, 1))"
    by (auto simp: html_comments_of_def split: sum.splits)
  show ?thesis
    using a b open_div_not_closing comment_block_not_closing PreOrderIter_root by blast
qed

theorem closing_markers_per_node_witness:
  "render_loop example_env (Map.empty(''t1_b'' \<mapsto> forest_entry_of (example_comment ''b'' ''t3_abc'' (Some ''bob'') [])))
      [(''t1_b'', 1)] ([], 3, 1)
     = Inr ([''</div>'', ''</div>'', ''</div>'',
             open_div (forest_entry_of (example_comment ''b'' ''t3_abc'' (Some ''bob'') [])) ''t1_b'' 1,
             comment_block example_env (forest_entry_of (example_comment ''b'' ''t3_abc'' (Some ''bob'') []))], 1, 2)
   \<and> render_loop example_env (Map.empty(''t1_b'' \<mapsto> forest_entry_of (example_comment ''b'' ''t3_abc'' (Some ''bob'') [])))
      [(''t1_b'', 2)] ([], 1, 1)
     = Inr ([open_div (forest_entry_of (example_comment ''b'' ''t3_abc'' (Some ''bob'') [])) ''t1_b'' 2,
             comment_block example_env (forest_entry_of (example_comment ''b'' ''t3_abc'' (Some ''bob'') []))], 2, 2)"
  using closing_markers_per_node [of "''t1_b''"
      "Map.empty(''t1_b'' \<mapsto> forest_entry_of (example_comment ''b'' ''t3_abc'' (Some ''bob'') []))"
      "forest_entry_of (example_comment ''b'' ''t3_abc'' (Some ''bob'') [])"
      example_env 1 "[]" "[]" 3 1 "(Node ''t3_abc'' [], Map.empty(''t3_abc'' \<mapsto> []))" "''abc''" "[]" "Node ''t3_abc'' []"]
    closing_markers_per_node [of "''t1_b''"
      "Map.empty(''t1_b'' \<mapsto> forest_entry_of (example_comment ''b'' ''t3_abc'' (Some ''bob'') []))"
      "forest_entry_of (example_comment ''b'' ''t3_abc'' (Some ''bob'') [])"
      example_env 2 "[]" "[]" 1 1 "(Node ''t3_abc'' [], Map.empty(''t3_abc'' \<mapsto> []))" "''abc''" "[]" "Node ''t3_abc'' []"]
  by (simp add: numeral_eq_Suc)





text \<open>
  Claim C2. For the flat thread of three top-level comments the loop appends three
  closing markers, one before each comment, the first one before the first comment: the
  previous level starts at 1, the depth of the first comment, and the test is
  \<open>current \<le> previous\<close>.
\<close>

theorem flat_thread_closing_markers:
  "\<exists>ci forest.
     download_submission (example_submission ''Hello'' flat_thread) ''abc''
       = Inr (example_submission ''Hello'' flat_thread, ci, forest)
     \<and> html_comments_of ev ''abc'' ci forest
       = Inr [''</div>'', open_div (forest_entry_of (flat_thread ! 0)) ''t1_c1'' 1,
              comment_block ev (forest_entry_of (flat_thread ! 0)),
              ''</div>'', open_div (forest_entry_of (flat_thread ! 1)) ''t1_c2'' 1,
              comment_block ev (forest_entry_of (flat_thread ! 1)),
              ''</div>'', open_div (forest_entry_of (flat_thread ! 2)) ''t1_c3'' 1,
              comment_block ev (forest_entry_of (flat_thread ! 2))]
     \<and> count_list
          [''</div>'', open_div (forest_entry_of (flat_thread ! 0)) ''t1_c1'' 1,
              comment_block ev (forest_entry_of (flat_thread ! 0)),
              ''</div>'', open_div (forest_entry_of (flat_thread ! 1)) ''t1_c2'' 1,
              comment_block ev (forest_entry_of (flat_thread ! 1)),
              ''</div>'', open_div (forest_entry_of (flat_thread ! 2)) ''t1_c3'' 1,
              comment_block ev (forest_entry_of (flat_thread ! 2))] ''</div>'' = 3"
  by (simp add: download_submission_def flat_thread_def example_submission_def example_comment_def
        key_of_def new_node_def arity_def html_comments_of_def PreOrderIter_def render_node_def
        close_count_def open_div_not_closing comment_block_not_closing)

section \<open>Tree reconstruction\<close>

lemma name_attach: "name (attach q new t) = name t"
  by (cases t; cases q) auto

lemma subtree_leaf: "subtree (Node k []) p = Some m \<longleftrightarrow> p = [] \<and> m = Node k []"
  by (cases p) auto

lemma attach_keeps:
  "subtree t p = Some m0 \<Longrightarrow>
   \<exists>m. subtree (attach q new t) p = Some m \<and> name m = name m0
     \<and> map name (children m) = map name (children m0) @ (if p = q then [name new] else [])"
proof (induction p arbitrary: q t m0)
  case Nil
  obtain n cs where t: "t = Node n cs" by (cases t)
  show ?case
  proof (cases q)
    case Nil
    with \<open>subtree t [] = Some m0\<close> t show ?thesis by auto
  next
    case (Cons i q')
    have "map name (cs[i := attach q' new (cs ! i)]) = map name cs"
    proof (cases "i < length cs")
      case True
      then have "(map name cs)[i := name (cs ! i)] = map name cs"
        using list_update_id [of "map name cs" i] by simp
      then show ?thesis by (simp add: map_update name_attach)
    next
      case False
      then have "length cs \<le> i" by simp
      then show ?thesis by (simp add: list_update_beyond)
    qed
    with Cons Nil.prems t show ?thesis by auto
  qed
next
  case (Cons j p')
  obtain n cs where t: "t = Node n cs" by (cases t)
  from Cons.prems t have j: "j < length cs" and sub: "subtree (cs ! j) p' = Some m0"
    by (auto split: if_splits)
  show ?case
  proof (cases q)
    case Nil
    with t j sub show ?thesis by (simp add: nth_append)
  next
    case (Cons i q')
    show ?thesis
    proof (cases "i = j")
      case True
      from Cons.IH [OF sub, of q'] obtain m where
        "subtree (attach q' new (cs ! j)) p' = Some m" "name m = name m0"
        "map name (children m) = map name (children m0) @ (if p' = q' then [name new] else [])"
        by blast
      with True Cons t j show ?thesis by simp
    next
      case False
      with Cons t j sub show ?thesis by auto
    qed
  qed
qed

lemma attach_new:
  "subtree t q = Some nq \<Longrightarrow>
   subtree (attach q (Node k []) t) (q @ [length (children nq)]) = Some (Node k [])"
proof (induction q arbitrary: t)
  case Nil
  then show ?case by (cases t) (auto simp: nth_append)
next
  case (Cons i q)
  then show ?case by (cases t) (auto split: if_splits)
qed

lemma attach_only:
  "subtree (attach q (Node k []) t) p = Some m \<Longrightarrow> subtree t q = Some nq \<Longrightarrow>
   (p = q @ [length (children nq)] \<and> m = Node k []) \<or> (\<exists>m0. subtree t p = Some m0)"
proof (induction p arbitrary: q t)
  case Nil
  then show ?case by simp
next
  case (Cons j p')
  obtain n cs where t: "t = Node n cs" by (cases t)
  show ?case
  proof (cases q)
    case Nil
    show ?thesis
    proof (cases "j < length cs")
      case True
      with Cons.prems Nil t show ?thesis by (auto simp: nth_append split: if_splits)
    next
      case False
      with Cons.prems Nil t show ?thesis
        by (auto simp: nth_append subtree_leaf split: if_splits)
    qed
  next
    case q: (Cons i q')
    from Cons.prems(2) q t have i: "i < length cs" and subq: "subtree (cs ! i) q' = Some nq"
      by (auto split: if_splits)
    from Cons.prems(1) q t i have j: "j < length cs"
      by (auto split: if_splits)
    show ?thesis
    proof (cases "i = j")
      case True
      from Cons.prems(1) q t i True have "subtree (attach q' (Node k []) (cs ! i)) p' = Some m"
        by auto
      from Cons.IH [OF this subq] True q t i show ?thesis by auto
    next
      case False
      with Cons.prems(1) q t i j show ?thesis by auto
    qed
  qed
qed

lemma sum_list_map_update:
  "i < length xs \<Longrightarrow>
   sum_list (map f (xs[i := x])) + f (xs ! i) = sum_list (map f xs) + (f x :: nat)"
proof (induction xs arbitrary: i)
  case Nil
  then show ?case by simp
next
  case (Cons a xs)
  then show ?case by (cases i) auto
qed

lemma size_attach:
  "subtree t q = Some nq \<Longrightarrow> size_tree (attach q new t) = size_tree t + size_tree new"
proof (induction q arbitrary: t)
  case Nil
  then show ?case by (cases t) auto
next
  case (Cons i q)
  obtain n cs where t: "t = Node n cs" by (cases t)
  from Cons.prems t have i: "i < length cs" and sub: "subtree (cs ! i) q = Some nq"
    by (auto split: if_splits)
  from Cons.IH [OF sub] sum_list_map_update [OF i, of size_tree "attach q new (cs ! i)"]
  show ?case using t i by simp
qed

lemma fill_closed:
  "resolvable (dom idx) (bfs q) \<Longrightarrow>
   fill q ((t, idx), forest) = Inr (foldl attach_comment ((t, idx), forest) (bfs q))"
proof (induction q "((t, idx), forest)" arbitrary: t idx forest rule: fill.induct)
  case 1
  then show ?case by simp
next
  case (2 c queue t idx forest)
  from "2.prems" obtain p where p: "idx (c_parent_id (attrs c)) = Some p"
    and rest: "resolvable (insert (key_of c) (dom idx)) (bfs (queue @ replies c))"
    by auto
  obtain t' r where n: "new_node (key_of c) p t = (t', r)" by (cases "new_node (key_of c) p t")
  have "resolvable (dom (idx(key_of c \<mapsto> r))) (bfs (queue @ replies c))"
    using rest by simp
  from "2.hyps" [OF p n [symmetric] refl this] p n show ?case
    by (simp add: attach_comment_def)
qed

lemma fill_fails:
  "\<not> resolvable (dom idx) (bfs q) \<Longrightarrow> fill q ((t, idx), forest) = Inl KeyError"
proof (induction q "((t, idx), forest)" arbitrary: t idx forest rule: fill.induct)
  case 1
  then show ?case by simp
next
  case (2 c queue t idx forest)
  show ?case
  proof (cases "idx (c_parent_id (attrs c))")
    case None
    then show ?thesis by simp
  next
    case (Some p)
    obtain t' r where n: "new_node (key_of c) p t = (t', r)" by (cases "new_node (key_of c) p t")
    from "2.prems" Some have "\<not> resolvable (dom (idx(key_of c \<mapsto> r))) (bfs (queue @ replies c))"
      by auto
    from "2.hyps" [OF Some n [symmetric] refl this] Some n show ?thesis by simp
  qed
qed

lemma tree_inv_init:
  "tree_inv root ((Node root [], Map.empty(root \<mapsto> [])), Map.empty) []"
  by (auto simp: tree_inv_def index_ok_def subtree_leaf)

lemma tree_inv_step:
  assumes inv: "tree_inv root ((t, idx), forest) done"
    and fresh: "key_of c \<notin> insert root (key_of ` set done)"
    and par: "c_parent_id (attrs c) \<in> insert root (key_of ` set done)"
  shows "tree_inv root (attach_comment ((t, idx), forest) c) (done @ [c])"
proof -
  let ?k = "key_of c"
  let ?par = "c_parent_id (attrs c)"
  from inv have ok: "index_ok t idx"
    and dom: "dom idx = insert root (key_of ` set done)"
    and root: "idx root = Some []" "name t = root"
    and size: "size_tree t = Suc (length done)"
    and kids: "\<And>p n. subtree t p = Some n \<Longrightarrow>
        map name (children n) = map key_of (filter (\<lambda>c. c_parent_id (attrs c) = name n) done)"
    and refs: "\<And>c. c \<in> set done \<Longrightarrow> \<exists>q j. idx (c_parent_id (attrs c)) = Some q
              \<and> idx (key_of c) = Some (q @ [j])"
    and frs: "\<And>c. c \<in> set done \<Longrightarrow> forest (key_of c) = Some (forest_entry_of c)"
    by (auto simp: tree_inv_def)
  from fresh dom have knew: "idx ?k = None" by auto
  from par dom obtain q where q: "idx ?par = Some q" by auto
  from ok have node_key: "\<And>p n. subtree t p = Some n \<Longrightarrow> idx (name n) = Some p"
    by (auto simp: index_ok_def)
  from ok have key_node: "\<And>k p. idx k = Some p \<Longrightarrow> \<exists>n. subtree t p = Some n \<and> name n = k"
    by (auto simp: index_ok_def)
  from key_node [OF q] obtain nq where nq: "subtree t q = Some nq" "name nq = ?par"
    by blast
  let ?r = "q @ [length (children nq)]"
  let ?t' = "attach q (Node ?k []) t"
  let ?idx' = "idx(?k \<mapsto> ?r)"
  have st: "attach_comment ((t, idx), forest) c
      = ((?t', ?idx'), forest(?k \<mapsto> forest_entry_of c))"
    using q nq by (simp add: attach_comment_def new_node_def arity_def)
  have pk: "?par \<noteq> ?k" using q knew by auto
  have newnode: "subtree ?t' ?r = Some (Node ?k [])"
    using attach_new [OF nq(1)] .
  have old: "\<And>p m0. subtree t p = Some m0 \<Longrightarrow>
      \<exists>m. subtree ?t' p = Some m \<and> name m = name m0
        \<and> map name (children m) = map name (children m0) @ (if p = q then [?k] else [])"
  proof -
    fix p m0 assume "subtree t p = Some m0"
    from attach_keeps [OF this, of q "Node ?k []"]
    show "\<exists>m. subtree ?t' p = Some m \<and> name m = name m0
        \<and> map name (children m) = map name (children m0) @ (if p = q then [?k] else [])"
      by (cases "p = q") auto
  qed
  have only: "\<And>p m. subtree ?t' p = Some m \<Longrightarrow>
      (p = ?r \<and> m = Node ?k []) \<or>
      (\<exists>m0. subtree t p = Some m0 \<and> name m = name m0
         \<and> map name (children m) = map name (children m0) @ (if p = q then [?k] else []))"
  proof -
    fix p m assume a: "subtree ?t' p = Some m"
    from attach_only [OF a nq(1)] show
      "(p = ?r \<and> m = Node ?k []) \<or>
      (\<exists>m0. subtree t p = Some m0 \<and> name m = name m0
         \<and> map name (children m) = map name (children m0) @ (if p = q then [?k] else []))"
    proof
      assume "p = ?r \<and> m = Node ?k []"
      then show ?thesis by simp
    next
      assume "\<exists>m0. subtree t p = Some m0"
      then obtain m0 where m0: "subtree t p = Some m0" by blast
      from old [OF m0] a m0 show ?thesis by auto
    qed
  qed
  have ok': "index_ok ?t' ?idx'"
    unfolding index_ok_def
  proof (intro conjI allI impI)
    fix k p assume kp: "?idx' k = Some p"
    show "\<exists>n. subtree ?t' p = Some n \<and> name n = k"
    proof (cases "k = ?k")
      case True
      with kp newnode show ?thesis by auto
    next
      case False
      with kp have "idx k = Some p" by simp
      from key_node [OF this] obtain n where "subtree t p = Some n" "name n = k" by blast
      with old [of p n] show ?thesis by auto
    qed
  next
    fix p n assume a: "subtree ?t' p = Some n"
    from only [OF a] show "?idx' (name n) = Some p"
    proof
      assume "p = ?r \<and> n = Node ?k []"
      then show ?thesis by simp
    next
      assume "\<exists>m0. subtree t p = Some m0 \<and> name n = name m0
         \<and> map name (children n) = map name (children m0) @ (if p = q then [?k] else [])"
      then obtain m0 where m0: "subtree t p = Some m0" "name n = name m0" by blast
      from node_key [OF m0(1)] have i: "idx (name m0) = Some p" .
      with knew have "name m0 \<noteq> ?k" by auto
      with i m0 show ?thesis by simp
    qed
  qed
  have dom': "dom ?idx' = insert root (key_of ` set (done @ [c]))"
    using dom by auto
  have root': "?idx' root = Some []" "name ?t' = root"
    using root fresh by (auto simp: name_attach)
  have size': "size_tree ?t' = Suc (length (done @ [c]))"
    using size_attach [OF nq(1), of "Node ?k []"] size by simp
  have parents_known: "\<And>d. d \<in> set done \<Longrightarrow> c_parent_id (attrs d) \<noteq> ?k"
    using refs knew by fastforce
  have kids': "\<And>p n. subtree ?t' p = Some n \<Longrightarrow>
        map name (children n)
          = map key_of (filter (\<lambda>c. c_parent_id (attrs c) = name n) (done @ [c]))"
  proof -
    fix p n assume a: "subtree ?t' p = Some n"
    from only [OF a] show "map name (children n)
          = map key_of (filter (\<lambda>c. c_parent_id (attrs c) = name n) (done @ [c]))"
    proof
      assume new: "p = ?r \<and> n = Node ?k []"
      have "filter (\<lambda>c. c_parent_id (attrs c) = ?k) done = []"
        using parents_known by (auto simp: filter_empty_conv)
      with new pk show ?thesis by simp
    next
      assume "\<exists>m0. subtree t p = Some m0 \<and> name n = name m0
         \<and> map name (children n) = map name (children m0) @ (if p = q then [?k] else [])"
      then obtain m0 where m0: "subtree t p = Some m0" "name n = name m0"
        "map name (children n) = map name (children m0) @ (if p = q then [?k] else [])" by blast
      have "p = q \<longleftrightarrow> ?par = name m0"
      proof
        assume "p = q"
        with m0(1) nq show "?par = name m0" by simp
      next
        assume "?par = name m0"
        with node_key [OF m0(1)] q show "p = q" by simp
      qed
      with m0 kids [OF m0(1)] show ?thesis by simp
    qed
  qed
  have refs': "\<And>d. d \<in> set (done @ [c]) \<Longrightarrow> \<exists>q j. ?idx' (c_parent_id (attrs d)) = Some q
              \<and> ?idx' (key_of d) = Some (q @ [j])"
  proof -
    fix d assume d: "d \<in> set (done @ [c])"
    show "\<exists>q j. ?idx' (c_parent_id (attrs d)) = Some q \<and> ?idx' (key_of d) = Some (q @ [j])"
    proof (cases "d \<in> set done")
      case True
      from refs [OF True] obtain q' j where
        q': "idx (c_parent_id (attrs d)) = Some q'" "idx (key_of d) = Some (q' @ [j])" by blast
      with knew have "c_parent_id (attrs d) \<noteq> ?k" "key_of d \<noteq> ?k" by auto
      with q' show ?thesis by simp
    next
      case False
      with d have "d = c" by simp
      with q pk show ?thesis by simp
    qed
  qed
  have frs': "\<And>d. d \<in> set (done @ [c]) \<Longrightarrow>
      (forest(?k \<mapsto> forest_entry_of c)) (key_of d) = Some (forest_entry_of d)"
  proof -
    fix d assume d: "d \<in> set (done @ [c])"
    show "(forest(?k \<mapsto> forest_entry_of c)) (key_of d) = Some (forest_entry_of d)"
    proof (cases "d \<in> set done")
      case True
      with fresh have "key_of d \<noteq> ?k" by (metis image_eqI insertCI)
      with frs [OF True] show ?thesis by simp
    next
      case False
      with d show ?thesis by simp
    qed
  qed
  show ?thesis
    unfolding st tree_inv_def prod.case
  proof (intro conjI allI impI ballI)
    show "index_ok ?t' ?idx'" by (rule ok')
    show "dom ?idx' = insert root (key_of ` set (done @ [c]))" by (rule dom')
    show "?idx' root = Some []" by (rule root')
    show "name ?t' = root" by (rule root')
    show "size_tree ?t' = Suc (length (done @ [c]))" by (rule size')
  next
    fix p n assume "subtree ?t' p = Some n"
    then show "map name (children n)
          = map key_of (filter (\<lambda>c. c_parent_id (attrs c) = name n) (done @ [c]))"
      by (rule kids')
  next
    fix d assume "d \<in> set (done @ [c])"
    then show "\<exists>q j. ?idx' (c_parent_id (attrs d)) = Some q
              \<and> ?idx' (key_of d) = Some (q @ [j])"
      by (rule refs')
  next
    fix d assume "d \<in> set (done @ [c])"
    then show "(forest(?k \<mapsto> forest_entry_of c)) (key_of d) = Some (forest_entry_of d)"
      by (rule frs')
  qed
qed

lemma tree_inv_fold:
  "tree_inv root st seen \<Longrightarrow> resolvable (insert root (key_of ` set seen)) cs \<Longrightarrow>
   distinct (map key_of (seen @ cs)) \<Longrightarrow> root \<notin> key_of ` set (seen @ cs) \<Longrightarrow>
   tree_inv root (foldl attach_comment st cs) (seen @ cs)"
proof (induction cs arbitrary: st seen)
  case Nil
  then show ?case by simp
next
  case (Cons c cs)
  obtain t idx forest where st: "st = ((t, idx), forest)" by (cases st) auto
  from Cons.prems have fresh: "key_of c \<notin> insert root (key_of ` set seen)" by auto
  from Cons.prems have par: "c_parent_id (attrs c) \<in> insert root (key_of ` set seen)" by simp
  from tree_inv_step [OF Cons.prems(1) [unfolded st] fresh par]
  have inv: "tree_inv root (attach_comment st c) (seen @ [c])" by (simp add: st)
  have eq: "insert root (key_of ` set (seen @ [c])) = insert (key_of c) (insert root (key_of ` set seen))"
    by auto
  from Cons.prems(2) have "resolvable (insert (key_of c) (insert root (key_of ` set seen))) cs"
    by simp
  then have res: "resolvable (insert root (key_of ` set (seen @ [c]))) cs"
    by (simp only: eq)
  from Cons.IH [OF inv res] Cons.prems show ?case by simp
qed

lemma all_less_Suc_shift: "(\<forall>i < Suc n. P i) \<longleftrightarrow> (P 0 \<and> (\<forall>i < n. P (Suc i)))"
  by (auto simp: less_Suc_eq_0_disj)

lemma resolvable_iff:
  "resolvable known cs \<longleftrightarrow>
   (\<forall>i < length cs. c_parent_id (attrs (cs ! i)) \<in> known \<union> key_of ` set (take i cs))"
proof (induction cs arbitrary: known)
  case Nil
  then show ?case by simp
next
  case (Cons c cs)
  have "(\<forall>i < length (c # cs). c_parent_id (attrs ((c # cs) ! i)) \<in> known \<union> key_of ` set (take i (c # cs)))
     \<longleftrightarrow> (c_parent_id (attrs c) \<in> known
          \<and> (\<forall>i < length cs. c_parent_id (attrs (cs ! i)) \<in> insert (key_of c) known \<union> key_of ` set (take i cs)))"
    by (simp add: all_less_Suc_shift) blast
  with Cons show ?case by simp
qed

lemma set_pre_order:
  "set (pre_order d t) = {(name n, d + length p) | p n. subtree t p = Some n}"
proof (induction t arbitrary: d)
  case (Node nm cs)
  have "set (pre_order d (Node nm cs))
      = insert (nm, d) (\<Union>c \<in> set cs. {(name n, Suc d + length p) | p n. subtree c p = Some n})"
    using Node by simp
  also have "\<dots> = {(name n, d + length p) | p n. subtree (Node nm cs) p = Some n}"
  proof (intro set_eqI iffI)
    fix x assume "x \<in> insert (nm, d) (\<Union>c \<in> set cs. {(name n, Suc d + length p) | p n. subtree c p = Some n})"
    then show "x \<in> {(name n, d + length p) | p n. subtree (Node nm cs) p = Some n}"
    proof
      assume "x = (nm, d)"
      then have "x = (name (Node nm cs), d + length ([] :: nat list)) \<and> subtree (Node nm cs) [] = Some (Node nm cs)"
        by simp
      then show ?thesis by blast
    next
      assume "x \<in> (\<Union>c \<in> set cs. {(name n, Suc d + length p) | p n. subtree c p = Some n})"
      then obtain c p n where c: "c \<in> set cs" "x = (name n, Suc d + length p)" "subtree c p = Some n"
        by blast
      from c(1) obtain i where i: "i < length cs" "cs ! i = c" by (auto simp: in_set_conv_nth)
      with c have "x = (name n, d + length (i # p)) \<and> subtree (Node nm cs) (i # p) = Some n"
        by simp
      then show ?thesis by blast
    qed
  next
    fix x assume "x \<in> {(name n, d + length p) | p n. subtree (Node nm cs) p = Some n}"
    then obtain p n where pn: "x = (name n, d + length p)" "subtree (Node nm cs) p = Some n"
      by blast
    show "x \<in> insert (nm, d) (\<Union>c \<in> set cs. {(name n, Suc d + length p) | p n. subtree c p = Some n})"
    proof (cases p)
      case Nil
      with pn show ?thesis by auto
    next
      case (Cons i p')
      with pn have i: "i < length cs" "subtree (cs ! i) p' = Some n" by (auto split: if_splits)
      then have "cs ! i \<in> set cs" by simp
      moreover have "x = (name n, Suc d + length p')" using pn Cons by simp
      ultimately show ?thesis using i(2) by blast
    qed
  qed
  finally show ?case .
qed

lemma download_nested:
  "download_submission (example_submission ''Hello'' nested_thread) ''abc''
     = Inr (example_submission ''Hello'' nested_thread, (nested_tree, nested_refs), nested_forest)"
  by (simp add: download_submission_def nested_thread_def example_submission_def
        example_comment_def key_of_def new_node_def arity_def nested_tree_def nested_refs_def
        nested_forest_def forest_entry_of_def)

lemma bfs_nested:
  "bfs nested_thread
     = [example_comment ''c1'' ''t3_abc'' (Some ''bob'')
          [example_comment ''c2'' ''t1_c1'' None [],
           example_comment ''c3'' ''t1_c1'' (Some ''dave'') []],
        example_comment ''c4'' ''t3_abc'' (Some ''erin'') [],
        example_comment ''c2'' ''t1_c1'' None [],
        example_comment ''c3'' ''t1_c1'' (Some ''dave'') []]"
  by (simp add: nested_thread_def example_comment_def)

lemma download_inv:
  assumes res: "resolvable {''t3_'' @ sid} (bfs (s_comments sub))"
    and dist: "distinct (map key_of (bfs (s_comments sub)))"
  shows "\<exists>t idx forest.
     download_submission sub sid = Inr (sub, (t, idx), forest)
     \<and> tree_inv (''t3_'' @ sid) ((t, idx), forest) (bfs (s_comments sub))"
proof -
  let ?root = "''t3_'' @ sid"
  let ?cs = "bfs (s_comments sub)"
  let ?st0 = "((Node ?root [], Map.empty(?root \<mapsto> [])), Map.empty :: comments_forest)"
  have noroot: "?root \<notin> key_of ` set ?cs" by (auto simp: key_of_def)
  have "resolvable (dom (Map.empty(?root \<mapsto> ([] :: ref)))) ?cs" using res by simp
  from fill_closed [OF this]
  have f: "fill (s_comments sub) ?st0 = Inr (foldl attach_comment ?st0 ?cs)" .
  have "tree_inv ?root (foldl attach_comment ?st0 ?cs) ([] @ ?cs)"
    using tree_inv_fold [OF tree_inv_init, of ?root ?cs] res dist noroot by simp
  then have inv: "tree_inv ?root (foldl attach_comment ?st0 ?cs) ?cs" by simp
  obtain t idx forest where st: "foldl attach_comment ?st0 ?cs = ((t, idx), forest)"
    by (cases "foldl attach_comment ?st0 ?cs") auto
  from f st inv show ?thesis by (simp add: download_submission_def)
qed

text \<open>
  Claim C3, as amended. Let the comments be those of a thread in the order the loop takes
  them off the queue (the top-level comments, then replies, level by level), with
  pairwise distinct identifiers, and let every comment declare as its parent the post
  or a comment that comes earlier in this order. Then \<open>download_submission\<close>
  returns a tree with one node more than there are comments, rooted at the node of the
  post (depth 0). Every comment has exactly one node of its name; that node is a child
  of the node named by the declared parent, so its depth is the parent's depth plus
  one, and the renderer's traversal meets both at these depths. The children of every
  node are the comments declaring it as parent, in the order they were taken off the
  queue: nothing is sorted.
\<close>

theorem tree_reconstruction:
  assumes res: "resolvable {''t3_'' @ sid} (bfs (s_comments sub))"
    and dist: "distinct (map key_of (bfs (s_comments sub)))"
  shows "\<exists>t idx forest.
     download_submission sub sid = Inr (sub, (t, idx), forest)
     \<and> name t = ''t3_'' @ sid \<and> idx (''t3_'' @ sid) = Some []
     \<and> size_tree t = length (bfs (s_comments sub)) + 1
     \<and> (\<forall>c \<in> set (bfs (s_comments sub)). \<exists>q j n pn.
            idx (c_parent_id (attrs c)) = Some q \<and> subtree t q = Some pn
          \<and> name pn = c_parent_id (attrs c)
          \<and> idx (key_of c) = Some (q @ [j]) \<and> subtree t (q @ [j]) = Some n
          \<and> name n = key_of c
          \<and> (\<forall>p m. subtree t p = Some m \<and> name m = key_of c \<longrightarrow> p = q @ [j])
          \<and> (key_of c, length q + 1) \<in> set (PreOrderIter t [])
          \<and> (c_parent_id (attrs c), length q) \<in> set (PreOrderIter t []))
     \<and> (\<forall>p n. subtree t p = Some n \<longrightarrow>
           map name (children n)
             = map key_of (filter (\<lambda>c. c_parent_id (attrs c) = name n) (bfs (s_comments sub))))"
proof -
  let ?cs = "bfs (s_comments sub)"
  from download_inv [OF res dist] obtain t idx forest where
    dl: "download_submission sub sid = Inr (sub, (t, idx), forest)"
    and inv: "tree_inv (''t3_'' @ sid) ((t, idx), forest) ?cs" by blast
  from inv have ok: "index_ok t idx"
    and root: "idx (''t3_'' @ sid) = Some []" "name t = ''t3_'' @ sid"
    and size: "size_tree t = Suc (length ?cs)"
    and kids: "\<forall>p n. subtree t p = Some n \<longrightarrow>
        map name (children n) = map key_of (filter (\<lambda>c. c_parent_id (attrs c) = name n) ?cs)"
    and refs: "\<And>c. c \<in> set ?cs \<Longrightarrow> \<exists>q j. idx (c_parent_id (attrs c)) = Some q
              \<and> idx (key_of c) = Some (q @ [j])"
    by (auto simp: tree_inv_def)
  from ok have node_key: "\<And>p n. subtree t p = Some n \<Longrightarrow> idx (name n) = Some p"
    by (auto simp: index_ok_def)
  from ok have key_node: "\<And>k p. idx k = Some p \<Longrightarrow> \<exists>n. subtree t p = Some n \<and> name n = k"
    by (auto simp: index_ok_def)
  have pre: "\<And>p n. subtree t p = Some n \<Longrightarrow> (name n, length p) \<in> set (PreOrderIter t [])"
    by (auto simp: PreOrderIter_def set_pre_order)
  have each: "\<forall>c \<in> set ?cs. \<exists>q j n pn.
            idx (c_parent_id (attrs c)) = Some q \<and> subtree t q = Some pn
          \<and> name pn = c_parent_id (attrs c)
          \<and> idx (key_of c) = Some (q @ [j]) \<and> subtree t (q @ [j]) = Some n
          \<and> name n = key_of c
          \<and> (\<forall>p m. subtree t p = Some m \<and> name m = key_of c \<longrightarrow> p = q @ [j])
          \<and> (key_of c, length q + 1) \<in> set (PreOrderIter t [])
          \<and> (c_parent_id (attrs c), length q) \<in> set (PreOrderIter t [])"
  proof
    fix c assume c: "c \<in> set ?cs"
    from refs [OF c] obtain q j where q: "idx (c_parent_id (attrs c)) = Some q"
      and r: "idx (key_of c) = Some (q @ [j])" by blast
    from key_node [OF q] obtain pn where pn: "subtree t q = Some pn" "name pn = c_parent_id (attrs c)"
      by blast
    from key_node [OF r] obtain n where n: "subtree t (q @ [j]) = Some n" "name n = key_of c"
      by blast
    have uniq: "\<forall>p m. subtree t p = Some m \<and> name m = key_of c \<longrightarrow> p = q @ [j]"
    proof (intro allI impI)
      fix p m assume "subtree t p = Some m \<and> name m = key_of c"
      with node_key [of p m] r show "p = q @ [j]" by simp
    qed
    from pre [OF n(1)] n(2) have d1: "(key_of c, length q + 1) \<in> set (PreOrderIter t [])" by simp
    from pre [OF pn(1)] pn(2) have d2: "(c_parent_id (attrs c), length q) \<in> set (PreOrderIter t [])"
      by simp
    from q r pn n uniq d1 d2 show "\<exists>q j n pn.
            idx (c_parent_id (attrs c)) = Some q \<and> subtree t q = Some pn
          \<and> name pn = c_parent_id (attrs c)
          \<and> idx (key_of c) = Some (q @ [j]) \<and> subtree t (q @ [j]) = Some n
          \<and> name n = key_of c
          \<and> (\<forall>p m. subtree t p = Some m \<and> name m = key_of c \<longrightarrow> p = q @ [j])
          \<and> (key_of c, length q + 1) \<in> set (PreOrderIter t [])
          \<and> (c_parent_id (attrs c), length q) \<in> set (PreOrderIter t [])"
      by blast
  qed
  from dl root size each kids show ?thesis by auto
qed

lemma nested_ok:
  "resolvable {''t3_'' @ ''abc''} (bfs (s_comments (example_submission ''Hello'' nested_thread)))
   \<and> distinct (map key_of (bfs (s_comments (example_submission ''Hello'' nested_thread))))"
  by (simp add: example_submission_def bfs_nested key_of_def example_comment_def)

theorem tree_reconstruction_witness:
  "download_submission (example_submission ''Hello'' nested_thread) ''abc''
     = Inr (example_submission ''Hello'' nested_thread, (nested_tree, nested_refs), nested_forest)
   \<and> size_tree nested_tree = 5
   \<and> map name (children nested_tree) = [''t1_c1'', ''t1_c4'']
   \<and> PreOrderIter nested_tree []
       = [(''t3_abc'', 0), (''t1_c1'', 1), (''t1_c2'', 2), (''t1_c3'', 2), (''t1_c4'', 1)]"
  using tree_reconstruction [OF conjunct1 [OF nested_ok] conjunct2 [OF nested_ok]]
  by (simp add: download_nested nested_tree_def PreOrderIter_def)

text \<open>
  The claim as stated fails: in the thread below every declared parent is the post or a
  comment of the collection, but the first comment declares the second one, which has
  no node yet when the first is attached.
\<close>

theorem declared_parent_counterexample:
  "set (map (\<lambda>c. c_parent_id (attrs c)) (bfs misordered_thread))
     \<subseteq> insert ''t3_abc'' (set (map key_of (bfs misordered_thread)))
   \<and> download_submission (example_submission ''Hello'' misordered_thread) ''abc'' = Inl KeyError"
  by (simp add: misordered_thread_def example_comment_def key_of_def download_submission_def
        example_submission_def)

text \<open>
  Claim C4. If some comment, when its turn comes, declares a parent that is neither the
  post nor a comment taken off the queue before it, \<open>download_submission\<close> raises
  \<open>KeyError\<close>: no tree is returned, so the comment is neither dropped nor attached
  elsewhere.
\<close>

theorem missing_parent_is_fatal:
  "i < length (bfs (s_comments sub))
   \<and> c_parent_id (attrs (bfs (s_comments sub) ! i))
       \<notin> insert (''t3_'' @ sid) (key_of ` set (take i (bfs (s_comments sub))))
   \<longrightarrow> download_submission sub sid = Inl KeyError"
proof
  assume a: "i < length (bfs (s_comments sub))
   \<and> c_parent_id (attrs (bfs (s_comments sub) ! i))
       \<notin> insert (''t3_'' @ sid) (key_of ` set (take i (bfs (s_comments sub))))"
  then have "\<not> resolvable {''t3_'' @ sid} (bfs (s_comments sub))"
    by (auto simp: resolvable_iff)
  then have "\<not> resolvable (dom (Map.empty(''t3_'' @ sid \<mapsto> ([] :: ref)))) (bfs (s_comments sub))"
    by simp
  from fill_fails [OF this] show "download_submission sub sid = Inl KeyError"
    by (simp add: download_submission_def)
qed

theorem missing_parent_is_fatal_witness:
  "download_submission (example_submission ''Hello'' misordered_thread) ''abc'' = Inl KeyError"
  using missing_parent_is_fatal [of 0 "example_submission ''Hello'' misordered_thread" "''abc''"]
  by (simp add: misordered_thread_def example_comment_def key_of_def example_submission_def)

section \<open>Deleted authors and bodies\<close>

text \<open>
  Claim C9 as stated fails: the record stored at fetch time for a comment with no
  author and no body does not carry a null value; it carries the text \<open>(deleted)\<close>
  in both fields.
\<close>

theorem deleted_counterexample:
  "c_author (attrs (example_comment ''c2'' ''t1_c1'' None [])) = None
   \<and> c_body (attrs (example_comment ''c2'' ''t1_c1'' None [])) = None
   \<and> (\<exists>ci forest.
        download_submission (example_submission ''Hello'' nested_thread) ''abc''
          = Inr (example_submission ''Hello'' nested_thread, ci, forest)
        \<and> map_option f_a (forest ''t1_c2'') = Some ''(deleted)''
        \<and> map_option f_b (forest ''t1_c2'') = Some ''(deleted)'')"
  by (simp add: download_nested nested_forest_def forest_entry_of_def example_comment_def)

text \<open>
  Claim C9, as amended. The substitution is applied at fetch time: for a thread as in
  claim C3 that \<open>download_submission\<close> reconstructs, the record stored for a
  comment holds the text \<open>(deleted)\<close> in place of a null author and of a null body
  and holds every other author and body unchanged. The renderer prints what the record
  holds: the block of a comment with a null author starts with the header of the author
  \<open>(deleted)\<close>, and the block of a comment with a null body ends with the conversion
  of the text \<open>(deleted)\<close>.
\<close>

theorem deleted_text_from_fetch:
  assumes res: "resolvable {''t3_'' @ sid} (bfs (s_comments sub))"
    and dist: "distinct (map key_of (bfs (s_comments sub)))"
    and c: "c \<in> set (bfs (s_comments sub))"
  shows "(\<exists>ci forest. download_submission sub sid = Inr (sub, ci, forest)
            \<and> forest (key_of c) = Some (forest_entry_of c))
     \<and> (c_author (attrs c) = None \<longrightarrow>
           f_a (forest_entry_of c) = ''(deleted)''
           \<and> prefix ''<header>(deleted), on '' (comment_block ev (forest_entry_of c)))
     \<and> (c_body (attrs c) = None \<longrightarrow>
           f_b (forest_entry_of c) = ''(deleted)''
           \<and> suffix (comment_parser ev ''(deleted)'') (comment_block ev (forest_entry_of c)))
     \<and> (\<forall>a. c_author (attrs c) = Some a \<longrightarrow> f_a (forest_entry_of c) = a)
     \<and> (\<forall>b. c_body (attrs c) = Some b \<longrightarrow> f_b (forest_entry_of c) = b)
     \<and> (\<forall>lvl prev. render_node ev (forest_entry_of c) (key_of c) lvl prev
           = replicate (close_count prev lvl) ''</div>''
             @ [open_div (forest_entry_of c) (key_of c) lvl,
                comment_block ev (forest_entry_of c)])"
proof -
  from download_inv [OF res dist] obtain t idx forest where
    dl: "download_submission sub sid = Inr (sub, (t, idx), forest)"
    and inv: "tree_inv (''t3_'' @ sid) ((t, idx), forest) (bfs (s_comments sub))" by blast
  from inv have "\<forall>c \<in> set (bfs (s_comments sub)). forest (key_of c) = Some (forest_entry_of c)"
    by (simp add: tree_inv_def)
  with c have e: "forest (key_of c) = Some (forest_entry_of c)" by blast
  from dl e have ex: "\<exists>ci forest. download_submission sub sid = Inr (sub, ci, forest)
            \<and> forest (key_of c) = Some (forest_entry_of c)" by blast
  have a: "c_author (attrs c) = None \<longrightarrow>
           f_a (forest_entry_of c) = ''(deleted)''
           \<and> prefix ''<header>(deleted), on '' (comment_block ev (forest_entry_of c))"
    by (simp add: forest_entry_of_def comment_block_def)
  have b: "c_body (attrs c) = None \<longrightarrow>
           f_b (forest_entry_of c) = ''(deleted)''
           \<and> suffix (comment_parser ev ''(deleted)'') (comment_block ev (forest_entry_of c))"
    by (auto simp: forest_entry_of_def comment_block_def suffix_def)
  have a2: "\<forall>a. c_author (attrs c) = Some a \<longrightarrow> f_a (forest_entry_of c) = a"
    by (simp add: forest_entry_of_def)
  have b2: "\<forall>b. c_body (attrs c) = Some b \<longrightarrow> f_b (forest_entry_of c) = b"
    by (simp add: forest_entry_of_def)
  have r: "\<forall>lvl prev. render_node ev (forest_entry_of c) (key_of c) lvl prev
           = replicate (close_count prev lvl) ''</div>''
             @ [open_div (forest_entry_of c) (key_of c) lvl, comment_block ev (forest_entry_of c)]"
    by (simp add: render_node_def)
  show ?thesis
    by (intro conjI) (rule ex a b a2 b2 r)+
qed

lemma comment_parser_deleted:
  "comment_parser example_env ''(deleted)'' = ''<p>(deleted)</p>''"
  by (simp add: comment_parser_def example_env_def)

theorem deleted_text_from_fetch_witness:
  "(\<exists>ci forest.
     download_submission (example_submission ''Hello'' nested_thread) ''abc''
       = Inr (example_submission ''Hello'' nested_thread, ci, forest)
     \<and> forest ''t1_c2'' = Some (forest_entry_of (example_comment ''c2'' ''t1_c1'' None [])))
   \<and> f_a (forest_entry_of (example_comment ''c2'' ''t1_c1'' None [])) = ''(deleted)''
   \<and> f_b (forest_entry_of (example_comment ''c2'' ''t1_c1'' None [])) = ''(deleted)''
   \<and> prefix ''<header>(deleted), on ''
        (comment_block example_env (forest_entry_of (example_comment ''c2'' ''t1_c1'' None [])))
   \<and> suffix ''<p>(deleted)</p>''
        (comment_block example_env (forest_entry_of (example_comment ''c2'' ''t1_c1'' None [])))"
proof -
  let ?c = "example_comment ''c2'' ''t1_c1'' None []"
  have c: "?c \<in> set (bfs (s_comments (example_submission ''Hello'' nested_thread)))"
    by (simp add: example_submission_def bfs_nested)
  have k: "key_of ?c = ''t1_c2''" by (simp add: key_of_def example_comment_def)
  have n1: "c_author (attrs ?c) = None" by (simp add: example_comment_def)
  have n2: "c_body (attrs ?c) = None" by (simp add: example_comment_def)
  note th = deleted_text_from_fetch [OF conjunct1 [OF nested_ok] conjunct2 [OF nested_ok] c,
      of example_env]
  from th [THEN conjunct1] have ex: "\<exists>ci forest.
     download_submission (example_submission ''Hello'' nested_thread) ''abc''
       = Inr (example_submission ''Hello'' nested_thread, ci, forest)
     \<and> forest ''t1_c2'' = Some (forest_entry_of ?c)"
    by (simp only: k)
  from th [THEN conjunct2, THEN conjunct1] n1
  have a: "f_a (forest_entry_of ?c) = ''(deleted)''
           \<and> prefix ''<header>(deleted), on '' (comment_block example_env (forest_entry_of ?c))"
    by (rule mp)
  from th [THEN conjunct2, THEN conjunct2, THEN conjunct1] n2
  have b: "f_b (forest_entry_of ?c) = ''(deleted)''
           \<and> suffix (comment_parser example_env ''(deleted)'')
                (comment_block example_env (forest_entry_of ?c))"
    by (rule mp)
  from b have b2: "suffix ''<p>(deleted)</p>'' (comment_block example_env (forest_entry_of ?c))"
    by (simp only: comment_parser_deleted)
  show ?thesis
    by (intro conjI) (rule ex a [THEN conjunct1] b [THEN conjunct1] a [THEN conjunct2] b2)+
qed

section \<open>Errors of the fetcher\<close>

text \<open>
  Claim C8. When the reference holds an identifier and the fetcher signals not found or
  forbidden, \<open>scrape_url\<close> prints the message of that condition and then goes on to
  \<open>generate_html\<close> with local variables that were never bound: it raises
  \<open>UnboundLocalError\<close>, which \<open>main\<close> prints as an uncaught problem and raises
  again. The other error paths of \<open>scrape_url\<close> raise \<open>SystemExit\<close> after their
  message.
\<close>

theorem not_found_falls_through:
  "extract_id url = Some submission_id
   \<and> (fetch w submission_id = Inl NotFound \<or> fetch w submission_id = Inl Forbidden) \<longrightarrow>
     snd (scrape_url ev w now_str url) = Inl UnboundLocalError
   \<and> main ev w now_str url
       = (fst (scrape_try w submission_id) @ [uncaught w UnboundLocalError], Inl UnboundLocalError)
   \<and> fst (scrape_try w submission_id)
       = (if fetch w submission_id = Inl NotFound
          then [(''[x] The submission '' @ submission_id @ '' was not found.'', 9, True)]
          else [(''[x] Not allowed to access the submission '' @ submission_id
                 @ ''. That usually means the submission is on a private subreddit you do not have access to.'',
                 9, True)])"
  by (auto simp: scrape_url_def scrape_try_def main_def main_body_def)

theorem not_found_falls_through_witness:
  "main example_env (example_world (Inl NotFound)) ''now'' ''abc''
     = ([(''[x] The submission abc was not found.'', 9, True),
         (''[x] Uncaught problem: error'', 9, True)], Inl UnboundLocalError)"
  using not_found_falls_through [of "''abc''" "''abc''" "example_world (Inl NotFound)"
          example_env "''now''"]
  by (simp add: extract_id_def regexes_def host_regex_def re_search_def id_class_def
       example_world_def scrape_try_def uncaught_def)

section \<open>Removing the paragraph markers\<close>

lemma not_contains_tail: "\<not> contains q (c # cs) \<Longrightarrow> \<not> contains q cs"
  by simp


lemma tag_wf_first: "tag_wf st (CHR ''<'' # cs) \<Longrightarrow> \<not> st \<and> tag_wf True cs"
  by simp












end
